theory Spec2Isabelle
  imports Complex_Main "HOL-Library.Sublist" "HOL-Library.AList"
begin

section \<open>The embedding service (services/embedding\_service.py)\<close>

text \<open>
  A text is a Python \<open>str\<close>, modelled as a \<open>string\<close> in which every \<open>char\<close> stands for
  one code point (so only the code points below 256 are represented). Python's unbounded
  integers are \<open>int\<close>. The three limits are the constructor's arguments, which the
  constructor stores without validating them.
\<close>

record config =
  max_batch_size :: int
  max_total_tokens :: int
  max_sequence_length :: int

text \<open>
  The tokenizer is an object of an external library; only its two methods are used.
  \<open>self.tokenizer\<close> is \<open>None\<close> when its initialisation failed, hence an option.
\<close>

record 'tok tokenizer =
  encode :: "string \<Rightarrow> 'tok list"
  decode :: "'tok list \<Rightarrow> string"

text \<open>Python's slice \<open>xs[:n]\<close>: a negative bound counts from the end.\<close>

definition slice_to :: "int \<Rightarrow> 'a list \<Rightarrow> 'a list" where
  "slice_to n xs =
     (if 0 \<le> n then take (nat n) xs else take (length xs - nat (- n)) xs)"

text \<open>
  \<open>str.split()\<close> without argument: the maximal runs of non-whitespace characters.
  \<open>isspace\<close> lists the code points below 256 that Python counts as whitespace.
\<close>

definition isspace :: "char \<Rightarrow> bool" where
  "isspace c = ((of_char c :: nat) \<in> {9, 10, 11, 12, 13, 28, 29, 30, 31, 32, 133, 160})"

fun split_run :: "string \<Rightarrow> string \<Rightarrow> string list" where
  "split_run w [] = (if w = [] then [] else [w])"
| "split_run w (c # cs) =
     (if isspace c then (if w = [] then split_run [] cs else w # split_run [] cs)
      else split_run (w @ [c]) cs)"

definition split_ws :: "string \<Rightarrow> string list" where
  "split_ws text = split_run [] text"

subsection \<open>Python numbers\<close>

text \<open>
  A token count is a Python number: an \<open>int\<close> when a tokenizer counts, a \<open>float\<close> when the
  estimate \<open>len(text.split()) * 1.3\<close> is used. A float is an IEEE 754 double. It is
  modelled by its value, a rational number, and every operation on floats rounds its exact
  result to the nearest double, a tie going to the even significand. The range of the
  exponent is not limited in the model (no overflow, no subnormal numbers): the floats
  that occur are 0 and numbers from 1.3 up to the order of the number of words of a text.

  \<open>log2n n\<close> is the position of the leading bit of \<open>n\<close>, and \<open>ilog2 x\<close> the exponent
  \<open>e\<close> of a positive \<open>x\<close>, with \<open>2 ^ e \<le> x < 2 ^ (e + 1)\<close>. A double has a significand of
  53 bits, so \<open>round_pos\<close> rounds \<open>x\<close> to a multiple of \<open>2 ^ (e - 52)\<close>.
\<close>

fun log2n :: "nat \<Rightarrow> nat" where
  "log2n n = (if n < 2 then 0 else Suc (log2n (n div 2)))"

declare log2n.simps [simp del]

definition ilog2 :: "rat \<Rightarrow> int" where
  "ilog2 x = (if 1 \<le> x then int (log2n (nat \<lfloor>x\<rfloor>))
              else - int (log2n (nat \<lceil>1 / x\<rceil> - 1)) - 1)"

definition round_half_even :: "rat \<Rightarrow> int" where
  "round_half_even x =
     (let f = \<lfloor>x\<rfloor>; r = x - of_int f
      in if r < 1 / 2 then f else if 1 / 2 < r then f + 1
         else if even f then f else f + 1)"

definition round_pos :: "rat \<Rightarrow> rat" where
  "round_pos x =
     of_int (round_half_even (x / 2 powi (ilog2 x - 52))) * 2 powi (ilog2 x - 52)"

definition round_double :: "rat \<Rightarrow> rat" where
  "round_double x = (if 0 < x then round_pos x else if x < 0 then - round_pos (- x) else 0)"

text \<open>
  The numbers, \<open>float(n)\<close> for an int, and the three operations the packing loop uses:
  \<open>+\<close>, \<open>*\<close> and the comparison \<open>>\<close> with an int. An int operand of \<open>+\<close> or \<open>*\<close> is
  converted when the other operand is a float; a comparison of a float with an int is
  exact. \<open>float_1_3\<close> is the literal \<open>1.3\<close>.
\<close>

datatype number = PyInt int | PyFloat rat

definition py_float :: "int \<Rightarrow> rat" where
  "py_float n = round_double (of_int n)"

fun value_of :: "number \<Rightarrow> rat" where
  "value_of (PyInt n) = of_int n"
| "value_of (PyFloat x) = x"

fun py_add :: "number \<Rightarrow> number \<Rightarrow> number" where
  "py_add (PyInt a) (PyInt b) = PyInt (a + b)"
| "py_add (PyInt a) (PyFloat y) = PyFloat (round_double (py_float a + y))"
| "py_add (PyFloat x) (PyInt b) = PyFloat (round_double (x + py_float b))"
| "py_add (PyFloat x) (PyFloat y) = PyFloat (round_double (x + y))"

fun py_mul :: "number \<Rightarrow> number \<Rightarrow> number" where
  "py_mul (PyInt a) (PyInt b) = PyInt (a * b)"
| "py_mul (PyInt a) (PyFloat y) = PyFloat (round_double (py_float a * y))"
| "py_mul (PyFloat x) (PyInt b) = PyFloat (round_double (x * py_float b))"
| "py_mul (PyFloat x) (PyFloat y) = PyFloat (round_double (x * y))"

definition py_gt :: "number \<Rightarrow> int \<Rightarrow> bool" where
  "py_gt a n = (of_int n < value_of a)"

definition float_1_3 :: rat where
  "float_1_3 = round_double (13 / 10)"

text \<open>
  Lines 183-188: the token count of a text, \<open>len(tokens)\<close> with a tokenizer and
  \<open>len(text.split()) * 1.3\<close> without.
\<close>

definition text_token_count :: "'tok tokenizer option \<Rightarrow> string \<Rightarrow> number" where
  "text_token_count tko text =
     (case tko of
        Some tk \<Rightarrow> PyInt (int (length (encode tk text)))
      | None \<Rightarrow> py_mul (PyInt (int (length (split_ws text)))) (PyFloat float_1_3))"

text \<open>Lines 156-172: the body of the first loop, for one text.\<close>

definition truncate_text :: "config \<Rightarrow> 'tok tokenizer option \<Rightarrow> string \<Rightarrow> string" where
  "truncate_text cfg tko text =
     (case tko of
        Some tk \<Rightarrow>
          (let tokens = encode tk text in
           if int (length tokens) \<le> max_sequence_length cfg then text
           else decode tk (slice_to (max_sequence_length cfg) tokens))
      | None \<Rightarrow> text)"

definition valid_texts :: "config \<Rightarrow> 'tok tokenizer option \<Rightarrow> string list \<Rightarrow> string list" where
  "valid_texts cfg tko texts = map (truncate_text cfg tko) texts"

text \<open>Lines 177-205: the packing loop, its three variables as a record.\<close>

record pack_state =
  batches :: "string list list"
  current_batch :: "string list"
  current_batch_tokens :: number

definition pack_init :: pack_state where
  "pack_init = \<lparr>batches = [], current_batch = [], current_batch_tokens = PyInt 0\<rparr>"

definition close_batch :: "pack_state \<Rightarrow> pack_state" where
  "close_batch st =
     (if current_batch st \<noteq> []
      then st\<lparr>batches := batches st @ [current_batch st],
              current_batch := [], current_batch_tokens := PyInt 0\<rparr>
      else st)"

definition pack_step :: "config \<Rightarrow> 'tok tokenizer option \<Rightarrow> pack_state \<Rightarrow> string \<Rightarrow> pack_state" where
  "pack_step cfg tko st text =
     (let n = text_token_count tko text;
          st1 = (if max_batch_size cfg \<le> int (length (current_batch st))
                    \<or> py_gt (py_add (current_batch_tokens st) n) (max_total_tokens cfg)
                 then close_batch st else st)
      in st1\<lparr>current_batch := current_batch st1 @ [text],
              current_batch_tokens := py_add (current_batch_tokens st1) n\<rparr>)"

definition make_batches :: "config \<Rightarrow> 'tok tokenizer option \<Rightarrow> string list \<Rightarrow> string list list" where
  "make_batches cfg tko valid = batches (close_batch (foldl (pack_step cfg tko) pack_init valid))"

text \<open>The batches that \<open>_get_embeddings_batch\<close> forms from its argument (lines 152-205).\<close>

definition batches_of :: "config \<Rightarrow> 'tok tokenizer option \<Rightarrow> string list \<Rightarrow> string list list" where
  "batches_of cfg tko texts = make_batches cfg tko (valid_texts cfg tko texts)"

text \<open>
  The two limits of a batch, as the packing loop measures them: \<open>total_tokens\<close> adds the
  counts of the items in order, starting from the int 0, as \<open>current_batch_tokens\<close> does.
\<close>

definition total_tokens :: "'tok tokenizer option \<Rightarrow> string list \<Rightarrow> number" where
  "total_tokens tko batch = foldl py_add (PyInt 0) (map (text_token_count tko) batch)"

definition within_limits :: "config \<Rightarrow> 'tok tokenizer option \<Rightarrow> string list \<Rightarrow> bool" where
  "within_limits cfg tko batch =
     (int (length batch) \<le> max_batch_size cfg
      \<and> \<not> py_gt (total_tokens tko batch) (max_total_tokens cfg))"

subsection \<open>Submitting the batches (lines 207-226)\<close>

text \<open>
  The embedding provider is an external service. It is a function of its own state
  \<open>'p\<close> and of the batch, which answers with the vectors of the batch or raises.
  The \<open>world\<close> records what the loop does to the outside: the provider's state, the
  batches handed to \<open>embeddings.create\<close> in order, and the number of calls of
  \<open>time.sleep(4)\<close>.
\<close>

datatype error = ProviderError

record 'p world =
  provider :: 'p
  submitted :: "string list list"
  sleeps :: nat

text \<open>
  The loop over the batches. \<open>None\<close> is the \<open>return []\<close> of the exception handler
  (line 224), \<open>Some all_embeddings\<close> the normal end of the loop (line 226).
\<close>

fun process_batches ::
  "('p \<Rightarrow> string list \<Rightarrow> (error + 'v list) \<times> 'p) \<Rightarrow> string list list \<Rightarrow> 'v list \<Rightarrow> 'p world
     \<Rightarrow> 'v list option \<times> 'p world" where
  "process_batches create [] all_embeddings w = (Some all_embeddings, w)"
| "process_batches create (batch # rest) all_embeddings w =
     (case create (provider w) batch of
        (Inl e, p) \<Rightarrow>
          (None, w\<lparr>provider := p, submitted := submitted w @ [batch]\<rparr>)
      | (Inr batch_embeddings, p) \<Rightarrow>
          process_batches create rest (all_embeddings @ batch_embeddings)
            (w\<lparr>provider := p, submitted := submitted w @ [batch], sleeps := sleeps w + 1\<rparr>))"

definition returned_embeddings :: "'v list option \<Rightarrow> 'v list" where
  "returned_embeddings r = (case r of None \<Rightarrow> [] | Some all_embeddings \<Rightarrow> all_embeddings)"

definition get_embeddings_batch ::
  "config \<Rightarrow> 'tok tokenizer option \<Rightarrow> ('p \<Rightarrow> string list \<Rightarrow> (error + 'v list) \<times> 'p)
     \<Rightarrow> string list \<Rightarrow> 'p world \<Rightarrow> 'v list \<times> 'p world" where
  "get_embeddings_batch cfg tko create texts w =
     (if texts = [] then ([], w)
      else let valid = valid_texts cfg tko texts in
        if valid = [] then ([], w)
        else case process_batches create (make_batches cfg tko valid) [] w of
               (r, w') \<Rightarrow> (returned_embeddings r, w'))"

text \<open>Line 114 of \<open>run\<close>: the stage fails unless this holds of the returned list.\<close>

definition run_accepts :: "'v list \<Rightarrow> string list \<Rightarrow> bool" where
  "run_accepts all_embeddings texts_to_embed =
     (all_embeddings \<noteq> [] \<and> length all_embeddings = length texts_to_embed)"

section \<open>Chunk identifiers (code\_preprocessor.py line 247, embedding\_service.py lines 104-107)\<close>

definition chunk_marker :: string where
  "chunk_marker = ''_<chunk>_''"

text \<open>\<open>str(i)\<close> of a non-negative integer: its decimal digits.\<close>

definition digit_char :: "nat \<Rightarrow> char" where
  "digit_char d = ''0123456789'' ! d"

fun str_nat :: "nat \<Rightarrow> string" where
  "str_nat n = (if n < 10 then [digit_char n] else str_nat (n div 10) @ [digit_char (n mod 10)])"

definition chunk_id :: "string \<Rightarrow> nat \<Rightarrow> string" where
  "chunk_id orig_id i = orig_id @ chunk_marker @ str_nat i"

text \<open>
  \<open>sep in s\<close> and \<open>s.split(sep)\<close> for a non-empty separator: the pieces between the
  occurrences of \<open>sep\<close>, found from left to right. (Python raises on the empty
  separator; the marker is not empty.)
\<close>

fun contains :: "string \<Rightarrow> string \<Rightarrow> bool" where
  "contains sep [] = (sep = [])"
| "contains sep (c # cs) = (prefix sep (c # cs) \<or> contains sep cs)"

function py_split :: "string \<Rightarrow> string \<Rightarrow> string \<Rightarrow> string list" where
  "py_split sep piece [] = [piece]"
| "py_split sep piece (c # cs) =
     (if sep \<noteq> [] \<and> prefix sep (c # cs)
      then piece # py_split sep [] (drop (length sep) (c # cs))
      else py_split sep (piece @ [c]) cs)"
  by pat_completeness auto
termination
  by (relation "measure (\<lambda>(sep, piece, s). length s)") auto

definition original_file :: "string \<Rightarrow> string" where
  "original_file cid =
     (if contains chunk_marker cid then hd (py_split chunk_marker [] cid) else cid)"

section \<open>The chunker (services/code\_preprocessor.py, \_chunk\_corpus)\<close>

text \<open>
  A document is a dict from strings to strings, and so is a corpus from identifiers to
  documents: association lists in insertion order, where \<open>AList.update\<close> is the
  assignment \<open>d[k] = v\<close>. The text splitter is an object of an external library;
  \<open>split_text title text\<close> stands for the \<open>split_text\<close> of the splitter that lines
  219-238 choose for the title.
\<close>

type_synonym doc = "(string \<times> string) list"

definition dict_get :: "doc \<Rightarrow> string \<Rightarrow> string \<Rightarrow> string" where
  "dict_get d k dflt = (case map_of d k of None \<Rightarrow> dflt | Some v \<Rightarrow> v)"

definition strip :: "string \<Rightarrow> string" where
  "strip s = rev (dropWhile isspace (rev (dropWhile isspace s)))"

definition chunk_doc ::
  "(string \<Rightarrow> string \<Rightarrow> string list) \<Rightarrow> (string \<times> doc) list \<Rightarrow> string \<times> doc
     \<Rightarrow> (string \<times> doc) list" where
  "chunk_doc split_text new_corpus item =
     (case item of (orig_id, doc) \<Rightarrow>
        let title = strip (dict_get doc ''title'' []);
            text = strip (dict_get doc ''text'' [])
        in if text = [] then new_corpus
           else let chunks = split_text title text
             in if chunks = [] then AList.update orig_id doc new_corpus
                else foldl (\<lambda>nc (i, chunk_text).
                        AList.update (chunk_id orig_id i)
                          [(''title'', title), (''text'', chunk_text)] nc)
                      new_corpus (enumerate 0 chunks))"

definition chunk_corpus ::
  "(string \<Rightarrow> string \<Rightarrow> string list) \<Rightarrow> (string \<times> doc) list \<Rightarrow> (string \<times> doc) list" where
  "chunk_corpus split_text corpus = foldl (chunk_doc split_text) [] corpus"

section \<open>The pipeline (pipeline.py, services/github\_fetcher.py)\<close>

text \<open>
  The directories of a tag that the loop tests or removes, and the calls of the stages
  in order. What the network and the three stages answer for a tag is given from
  outside: \<open>fetch\<close> says whether \<open>download_repo\<close> raises before the target directory
  exists, raises afterwards, or completes; a stage returns true, returns false or raises.
\<close>

datatype path = RepoDir string | RawDir string

datatype event = Download string | Preprocess string | Embed string | Index string

datatype fetch_outcome = MkdirRaises | ArchiveRaises | Fetched

datatype stage_outcome = Succeeds | ReturnsFalse | Raises

record env =
  mistral_api_key :: bool
  pinecone_api_key :: bool
  fetch :: "string \<Rightarrow> fetch_outcome"
  preprocess :: "string \<Rightarrow> stage_outcome"
  embed :: "string \<Rightarrow> stage_outcome"
  index_repository :: "string \<Rightarrow> stage_outcome"

record pstate =
  dirs :: "path set"
  events :: "event list"

text \<open>
  \<open>download_repo\<close> with target \<open>raw_dir\<close>: \<open>mkdir(parents=True)\<close> creates the
  tag's directory and the target; the handler removes the target if it exists (the
  removal itself is taken to succeed) and returns false.
\<close>

definition download_repo :: "env \<Rightarrow> string \<Rightarrow> pstate \<Rightarrow> bool \<times> pstate" where
  "download_repo e tag s =
     (let s0 = s\<lparr>events := events s @ [Download tag]\<rparr>;
          made = s0\<lparr>dirs := dirs s0 \<union> {RepoDir tag, RawDir tag}\<rparr>
      in case fetch e tag of
           Fetched \<Rightarrow> (True, made)
         | ArchiveRaises \<Rightarrow> (False, made\<lparr>dirs := dirs made - {RawDir tag}\<rparr>)
         | MkdirRaises \<Rightarrow> (False, s0\<lparr>dirs := dirs s0 - {RawDir tag}\<rparr>))"

text \<open>
  Lines 83-106 for one tag: the three stages in order. The flag is false where the code
  executes \<open>return\<close>.
\<close>

definition run_stages :: "env \<Rightarrow> string \<Rightarrow> pstate \<Rightarrow> bool \<times> pstate" where
  "run_stages e tag s =
     (let s1 = s\<lparr>events := events s @ [Preprocess tag]\<rparr> in
      if preprocess e tag \<noteq> Succeeds then (False, s1)
      else let s2 = s1\<lparr>events := events s1 @ [Embed tag]\<rparr> in
        if embed e tag \<noteq> Succeeds then (False, s2)
        else let s3 = s2\<lparr>events := events s2 @ [Index tag]\<rparr> in
          if index_repository e tag = Raises then (False, s3) else (True, s3))"

text \<open>
  The loop over the tags (lines 60-106). The flag of the result is true when the loop
  ran to its end and false when a \<open>return\<close> left it.
\<close>

fun process_tags :: "env \<Rightarrow> string list \<Rightarrow> pstate \<Rightarrow> bool \<times> pstate" where
  "process_tags e [] s = (True, s)"
| "process_tags e (tag # rest) s =
     (case (if RepoDir tag \<in> dirs s then (True, s) else download_repo e tag s) of
        (False, s1) \<Rightarrow> (False, s1)
      | (True, s1) \<Rightarrow>
          (case run_stages e tag s1 of
             (False, s2) \<Rightarrow> (False, s2)
           | (True, s2) \<Rightarrow> process_tags e rest s2))"

datatype 'a outcome = Exit int | Returned 'a

definition run_pipeline :: "env \<Rightarrow> string list \<Rightarrow> pstate \<Rightarrow> (bool \<times> pstate) outcome" where
  "run_pipeline e tags s =
     (let tags1 = (if tags = [] then [''latest''] else tags) in
      if \<not> mistral_api_key e then Exit 1
      else if \<not> pinecone_api_key e then Exit 1
      else Returned (process_tags e tags1 s))"

section \<open>Auxiliary notions for the proofs\<close>

text \<open>
  The shape of every batch the packing loop closes, and the invariant of its variables:
  a batch is not empty, and it is within both limits unless it holds one item only.
\<close>

definition batch_shape :: "config \<Rightarrow> 'tok tokenizer option \<Rightarrow> string list \<Rightarrow> bool" where
  "batch_shape cfg tko b = (b \<noteq> [] \<and> (within_limits cfg tko b \<or> length b = 1))"

definition pack_inv :: "config \<Rightarrow> 'tok tokenizer option \<Rightarrow> pack_state \<Rightarrow> bool" where
  "pack_inv cfg tko st =
     (list_all (batch_shape cfg tko) (batches st)
      \<and> (current_batch st = [] \<or> batch_shape cfg tko (current_batch st))
      \<and> current_batch_tokens st = total_tokens tko (current_batch st))"

text \<open>
  The numbers the loop meets: with a tokenizer every count and every sum is an int that is
  not negative; without one every count is a double that is not negative, and a sum is
  such a double or the int 0 the batch starts from.
\<close>

definition count_ok :: "'tok tokenizer option \<Rightarrow> number \<Rightarrow> bool" where
  "count_ok tko n =
     (case tko of
        Some tk \<Rightarrow> (case n of PyInt k \<Rightarrow> 0 \<le> k | PyFloat x \<Rightarrow> False)
      | None \<Rightarrow> (case n of PyInt k \<Rightarrow> False | PyFloat x \<Rightarrow> 0 \<le> x \<and> round_double x = x))"

definition sum_ok :: "'tok tokenizer option \<Rightarrow> number \<Rightarrow> bool" where
  "sum_ok tko a = (a = PyInt 0 \<or> count_ok tko a)"

text \<open>A tokenizer for the examples: one token per character.\<close>

definition char_tokenizer :: "char tokenizer" where
  "char_tokenizer = \<lparr>encode = (\<lambda>text. text), decode = (\<lambda>tokens. tokens)\<rparr>"

text \<open>
  Two providers for the examples, both without state: one embeds every batch, one raises
  on one particular batch. A vector is a list of integers here.
\<close>

definition embed_all :: "unit \<Rightarrow> string list \<Rightarrow> (error + int list list) \<times> unit" where
  "embed_all p batch = (Inr (map (\<lambda>t. [int (length t)]) batch), p)"

definition fail_on :: "string list \<Rightarrow> unit \<Rightarrow> string list \<Rightarrow> (error + int list list) \<times> unit" where
  "fail_on bad p batch =
     (if batch = bad then Inl ProviderError else Inr (map (\<lambda>t. [int (length t)]) batch), p)"

text \<open>A splitter that returns no chunk, and an environment in which only the archive of
  tag \<open>v1\<close> cannot be fetched, for the examples.\<close>

definition no_chunks :: "string \<Rightarrow> string \<Rightarrow> string list" where
  "no_chunks title text = []"

definition example_env :: env where
  "example_env = \<lparr>mistral_api_key = True, pinecone_api_key = True,
     fetch = (\<lambda>tag. if tag = ''v1'' then ArchiveRaises else Fetched),
     preprocess = (\<lambda>tag. Succeeds), embed = (\<lambda>tag. Succeeds),
     index_repository = (\<lambda>tag. Succeeds)\<rparr>"

declare str_nat.simps [simp del]

section \<open>Rounding to the nearest double\<close>

subsection \<open>The exponent\<close>

lemma log2n_bounds: "0 < n \<Longrightarrow> 2 ^ log2n n \<le> n \<and> n < 2 ^ Suc (log2n n)"
proof (induction n rule: log2n.induct)
  case (1 n)
  show ?case
  proof (cases "n < 2")
    case True
    with "1.prems" show ?thesis by (simp add: log2n.simps [of n])
  next
    case False
    then have "0 < n div 2" by simp
    with "1.IH" False have ih: "2 ^ log2n (n div 2) \<le> n div 2 \<and> n div 2 < 2 ^ Suc (log2n (n div 2))"
      by simp
    define p :: nat where "p = 2 ^ log2n (n div 2)"
    from ih have "p \<le> n div 2" and "n div 2 < 2 * p" by (simp_all add: p_def)
    then have "2 * p \<le> n \<and> n < 2 * (2 * p)" by arith
    moreover from False have "log2n n = Suc (log2n (n div 2))" by (simp add: log2n.simps [of n])
    ultimately show ?thesis by (simp add: p_def)
  qed
qed

lemma pow2_le_of_nat: "2 ^ k \<le> (n::nat) \<Longrightarrow> (2::rat) ^ k \<le> of_nat n"
proof -
  assume "2 ^ k \<le> n"
  then have "(of_nat (2 ^ k) :: rat) \<le> of_nat n" by (simp only: of_nat_le_iff)
  then show ?thesis by simp
qed

lemma of_nat_le_pow2: "(n::nat) \<le> 2 ^ k \<Longrightarrow> (of_nat n :: rat) \<le> 2 ^ k"
proof -
  assume "n \<le> 2 ^ k"
  then have "(of_nat n :: rat) \<le> of_nat (2 ^ k)" by (simp only: of_nat_le_iff)
  then show ?thesis by simp
qed

lemma pow2_le_of_int: "(2::int) ^ k \<le> m \<Longrightarrow> (2::rat) ^ k \<le> of_int m"
proof -
  assume "(2::int) ^ k \<le> m"
  then have "(of_int (2 ^ k) :: rat) \<le> of_int m" by (simp only: of_int_le_iff)
  then show ?thesis by simp
qed

lemma of_int_le_pow2: "m \<le> (2::int) ^ k \<Longrightarrow> (of_int m :: rat) \<le> 2 ^ k"
proof -
  assume "m \<le> (2::int) ^ k"
  then have "(of_int m :: rat) \<le> of_int (2 ^ k)" by (simp only: of_int_le_iff)
  then show ?thesis by simp
qed

lemma ilog2_bounds_ge1:
  assumes "1 \<le> x"
  shows "2 powi ilog2 x \<le> x \<and> x < 2 powi (ilog2 x + 1)"
proof -
  define n where "n = nat \<lfloor>x\<rfloor>"
  from assms have f: "1 \<le> \<lfloor>x\<rfloor>" by simp
  then have n0: "0 < n" by (simp add: n_def)
  have nf: "(of_nat n :: rat) = of_int \<lfloor>x\<rfloor>" using f by (simp add: n_def)
  have nx: "of_nat n \<le> x" unfolding nf by simp
  have xn: "x < of_nat (n + 1)" unfolding nf of_nat_add by simp linarith
  from log2n_bounds [OF n0] have a: "2 ^ log2n n \<le> n" and b: "n + 1 \<le> 2 ^ Suc (log2n n)" by simp_all
  from pow2_le_of_nat [OF a] nx have lo: "(2::rat) ^ log2n n \<le> x" by linarith
  from of_nat_le_pow2 [OF b] xn have hi: "x < 2 ^ Suc (log2n n)" by linarith
  have e: "ilog2 x = int (log2n n)" using assms by (simp add: ilog2_def n_def)
  have e1: "ilog2 x + 1 = int (Suc (log2n n))" by (simp add: e)
  show ?thesis unfolding e1 unfolding e power_int_of_nat using lo hi by blast
qed

lemma ilog2_bounds_lt1:
  assumes "0 < x" and "x < 1"
  shows "2 powi ilog2 x \<le> x \<and> x < 2 powi (ilog2 x + 1)"
proof -
  define y where "y = 1 / x"
  define N where "N = nat \<lceil>y\<rceil>"
  from assms have y1: "1 < y" by (simp add: y_def)
  then have c2: "2 \<le> \<lceil>y\<rceil>" by linarith
  then have N2: "2 \<le> N" unfolding N_def by linarith
  have Nc: "(of_nat N :: rat) = of_int \<lceil>y\<rceil>" using c2 by (simp add: N_def)
  have yN: "y \<le> of_nat N" unfolding Nc by simp
  have Ny: "of_nat (N - 1) < y" using N2 by (simp add: of_nat_diff Nc) linarith
  define j where "j = log2n (N - 1)"
  from N2 have "0 < N - 1" by simp
  from log2n_bounds [OF this] have a: "2 ^ j \<le> N - 1" and b0: "N - 1 < 2 ^ Suc j"
    by (simp_all add: j_def)
  from b0 have b: "N \<le> 2 ^ Suc j" by linarith
  from pow2_le_of_nat [OF a] Ny have lo: "(2::rat) ^ j < y" by linarith
  from of_nat_le_pow2 [OF b] yN have hi: "y \<le> 2 ^ Suc j" by linarith
  have e: "ilog2 x = - int (Suc j)" using assms by (simp add: ilog2_def j_def N_def y_def)
  have e1: "ilog2 x + 1 = - int j" by (simp add: e)
  have x: "x = 1 / y" using assms by (simp add: y_def)
  have p1: "(2::rat) powi (- int (Suc j)) = 1 / 2 ^ Suc j"
    by (simp only: power_int_minus_divide power_int_of_nat)
  have p2: "(2::rat) powi (- int j) = 1 / 2 ^ j"
    by (simp only: power_int_minus_divide power_int_of_nat)
  have pj: "(0::rat) < 2 ^ j" by simp
  from y1 have y0: "0 < y" by linarith
  have "1 / 2 ^ Suc j \<le> 1 / y"
    using hi y0 by (simp only: frac_le zero_le_one order_refl)
  then have lox: "1 / 2 ^ Suc j \<le> x" by (simp only: x)
  have "1 / y < 1 / 2 ^ j"
    using lo pj by (simp only: frac_less2 zero_less_one order_refl)
  then have hix: "x < 1 / 2 ^ j" by (simp only: x)
  show ?thesis unfolding e1 unfolding e p1 p2 using lox hix by blast
qed

lemma ilog2_bounds:
  assumes "0 < x"
  shows "2 powi ilog2 x \<le> x \<and> x < 2 powi (ilog2 x + 1)"
proof (cases "1 \<le> x")
  case True
  then show ?thesis by (rule ilog2_bounds_ge1)
next
  case False
  with assms show ?thesis by (intro ilog2_bounds_lt1) simp_all
qed

lemma ilog2_unique:
  assumes "2 powi e \<le> x" and "x < 2 powi (e + 1)"
  shows "ilog2 x = e"
proof -
  have "(0::rat) < 2 powi e" by simp
  with assms(1) have x0: "0 < x" by linarith
  from ilog2_bounds [OF x0] have lo: "2 powi ilog2 x \<le> x" and hi: "x < 2 powi (ilog2 x + 1)"
    by simp_all
  have "ilog2 x \<le> e"
  proof (rule ccontr)
    assume "\<not> ilog2 x \<le> e"
    then have "e + 1 \<le> ilog2 x" by simp
    then have "(2::rat) powi (e + 1) \<le> 2 powi ilog2 x" by (rule power_int_increasing) simp
    with lo assms(2) show False by linarith
  qed
  moreover have "e \<le> ilog2 x"
  proof (rule ccontr)
    assume "\<not> e \<le> ilog2 x"
    then have "ilog2 x + 1 \<le> e" by simp
    then have "(2::rat) powi (ilog2 x + 1) \<le> 2 powi e" by (rule power_int_increasing) simp
    with hi assms(1) show False by linarith
  qed
  ultimately show ?thesis by simp
qed

lemma ilog2_mono:
  assumes "0 < x" and "x \<le> y"
  shows "ilog2 x \<le> ilog2 y"
proof (rule ccontr)
  assume "\<not> ilog2 x \<le> ilog2 y"
  then have "ilog2 y + 1 \<le> ilog2 x" by simp
  then have "(2::rat) powi (ilog2 y + 1) \<le> 2 powi ilog2 x" by (rule power_int_increasing) simp
  moreover from assms have "0 < y" by simp
  ultimately show False
    using ilog2_bounds [OF assms(1)] ilog2_bounds [OF \<open>0 < y\<close>] assms(2) by linarith
qed

subsection \<open>Rounding to an integer\<close>

lemma round_half_even_of_int: "round_half_even (of_int k) = k"
  by (simp add: round_half_even_def)

lemma round_half_even_cases:
  "round_half_even x = \<lfloor>x\<rfloor> \<and> x - of_int \<lfloor>x\<rfloor> \<le> 1 / 2
   \<or> round_half_even x = \<lfloor>x\<rfloor> + 1 \<and> 1 / 2 \<le> x - of_int \<lfloor>x\<rfloor>"
  by (auto simp: round_half_even_def Let_def)

lemma round_half_even_err: "\<bar>of_int (round_half_even x) - x\<bar> \<le> 1 / 2"
proof -
  have "of_int \<lfloor>x\<rfloor> \<le> x" and "x < of_int \<lfloor>x\<rfloor> + 1" by linarith+
  with round_half_even_cases [of x] show ?thesis by auto
qed

lemma round_half_even_mono:
  assumes "x \<le> y"
  shows "round_half_even x \<le> round_half_even y"
proof (cases "\<lfloor>x\<rfloor> = \<lfloor>y\<rfloor>")
  case True
  with assms show ?thesis by (auto simp: round_half_even_def Let_def)
next
  case False
  from assms have "\<lfloor>x\<rfloor> \<le> \<lfloor>y\<rfloor>" by (rule floor_mono)
  with False have "\<lfloor>x\<rfloor> + 1 \<le> \<lfloor>y\<rfloor>" by simp
  moreover have "round_half_even x \<le> \<lfloor>x\<rfloor> + 1" using round_half_even_cases [of x] by auto
  moreover have "\<lfloor>y\<rfloor> \<le> round_half_even y" using round_half_even_cases [of y] by auto
  ultimately show ?thesis by linarith
qed

lemma round_half_even_eqI:
  assumes "\<bar>x - of_int m\<bar> < 1 / 2 \<or> \<bar>x - of_int m\<bar> = 1 / 2 \<and> even m"
  shows "round_half_even x = m"
proof -
  from assms show ?thesis
  proof
    assume a: "\<bar>x - of_int m\<bar> < 1 / 2"
    have "\<bar>of_int (round_half_even x) - x\<bar> \<le> 1 / 2" by (rule round_half_even_err)
    with a have "\<bar>(of_int (round_half_even x) :: rat) - of_int m\<bar> < 1" by linarith
    then have "\<bar>(of_int (round_half_even x - m) :: rat)\<bar> < of_int 1" by simp
    then have "\<bar>round_half_even x - m\<bar> < 1" by (simp only: of_int_abs [symmetric] of_int_less_iff)
    then show ?thesis by linarith
  next
    assume a: "\<bar>x - of_int m\<bar> = 1 / 2 \<and> even m"
    then consider "x = of_int m + 1 / 2" | "x = of_int m - 1 / 2" by (auto simp: abs_if split: if_splits)
    then show ?thesis
    proof cases
      case 1
      then have "\<lfloor>x\<rfloor> = m" by (intro floor_unique) simp_all
      with 1 a show ?thesis by (simp add: round_half_even_def)
    next
      case 2
      then have "\<lfloor>x\<rfloor> = m - 1" by (intro floor_unique) simp_all
      with 2 a show ?thesis by (simp add: round_half_even_def)
    qed
  qed
qed

subsection \<open>Rounding a positive number\<close>

lemma ulp_facts:
  fixes x :: rat
  defines "u \<equiv> 2 powi (ilog2 x - 52)"
  assumes "0 < x"
  shows "0 < u" and "2 ^ 52 * u \<le> x" and "x < 2 ^ 53 * u"
    and "2 powi ilog2 x = 2 ^ 52 * u" and "2 powi (ilog2 x + 1) = 2 ^ 53 * u"
proof -
  show u0: "0 < u" by (simp add: u_def)
  have "u = 2 powi ilog2 x / 2 powi 52" unfolding u_def by (rule power_int_diff) simp
  then show a: "2 powi ilog2 x = 2 ^ 52 * u" by simp
  have "(2::rat) powi (ilog2 x + 1) = 2 powi ilog2 x * 2" by (rule power_int_add_1) simp
  then show b: "2 powi (ilog2 x + 1) = 2 ^ 53 * u" by (simp add: a)
  from ilog2_bounds [OF assms(2)] show "2 ^ 52 * u \<le> x" and "x < 2 ^ 53 * u"
    by (simp_all only: a b)
qed

lemma mantissa_bounds:
  fixes x :: rat
  defines "u \<equiv> 2 powi (ilog2 x - 52)"
  assumes "0 < x"
  shows "2 ^ 52 \<le> round_half_even (x / u)" and "round_half_even (x / u) \<le> 2 ^ 53"
proof -
  from ulp_facts [OF assms(2)] have u0: "0 < u" and lo: "2 ^ 52 * u \<le> x" and hi: "x < 2 ^ 53 * u"
    by (simp_all add: u_def)
  from lo u0 have "of_int (2 ^ 52) \<le> x / u" by (simp add: pos_le_divide_eq)
  from round_half_even_mono [OF this] show "2 ^ 52 \<le> round_half_even (x / u)"
    by (simp only: round_half_even_of_int)
  from hi u0 have "x / u \<le> of_int (2 ^ 53)" by (simp add: pos_divide_le_eq)
  from round_half_even_mono [OF this] show "round_half_even (x / u) \<le> 2 ^ 53"
    by (simp only: round_half_even_of_int)
qed

lemma round_pos_bounds:
  assumes "0 < x"
  shows "2 powi ilog2 x \<le> round_pos x" and "round_pos x \<le> 2 powi (ilog2 x + 1)"
proof -
  define u :: rat where "u = 2 powi (ilog2 x - 52)"
  define m where "m = round_half_even (x / u)"
  have r: "round_pos x = of_int m * u" by (simp add: round_pos_def u_def m_def)
  from ulp_facts [OF assms] have u0: "0 < u" and a: "2 powi ilog2 x = 2 ^ 52 * u"
    and b: "2 powi (ilog2 x + 1) = 2 ^ 53 * u" by (simp_all add: u_def)
  from mantissa_bounds [OF assms] have "2 ^ 52 \<le> m" and "m \<le> 2 ^ 53" by (simp_all add: m_def u_def)
  then have "(2 ^ 52 :: rat) \<le> of_int m" and "(of_int m :: rat) \<le> 2 ^ 53"
    by (simp_all only: pow2_le_of_int of_int_le_pow2)
  with u0 show "2 powi ilog2 x \<le> round_pos x" and "round_pos x \<le> 2 powi (ilog2 x + 1)"
    unfolding r a b by (simp_all add: mult_right_mono)
qed

lemma round_pos_pos: "0 < x \<Longrightarrow> 0 < round_pos x"
proof -
  assume "0 < x"
  from round_pos_bounds(1) [OF this] have "2 powi ilog2 x \<le> round_pos x" .
  moreover have "(0::rat) < 2 powi ilog2 x" by simp
  ultimately show ?thesis by linarith
qed

lemma round_pos_fixes:
  assumes "2 ^ 52 \<le> m" and "m \<le> 2 ^ 53"
  shows "round_pos (of_int m * 2 powi k) = of_int m * 2 powi k"
proof (cases "m = 2 ^ 53")
  case True
  have v: "of_int m * 2 powi k = (2::rat) powi (k + 53)"
    by (simp add: True power_int_add)
  have e: "ilog2 ((2::rat) powi (k + 53)) = k + 53"
    by (rule ilog2_unique) (simp_all add: power_int_add)
  have "(2::rat) powi (k + 53) / 2 powi (k + 53 - 52) = 2 powi (k + 53 - (k + 53 - 52))"
    by (rule power_int_diff [symmetric]) simp
  then have q: "(2::rat) powi (k + 53) / 2 powi (k + 53 - 52) = of_int (2 ^ 52)" by simp
  show ?thesis unfolding v round_pos_def e q round_half_even_of_int
    by (simp add: power_int_add)
next
  case False
  with assms have m: "2 ^ 52 \<le> m" "m + 1 \<le> 2 ^ 53" by simp_all
  then have mr0: "(2 ^ 52 :: rat) \<le> of_int m" "(of_int (m + 1) :: rat) \<le> 2 ^ 53"
    by (simp_all only: pow2_le_of_int of_int_le_pow2)
  then have mr: "(2 ^ 52 :: rat) \<le> of_int m" "(of_int m + 1 :: rat) \<le> 2 ^ 53"
    by simp_all
  define x :: rat where "x = of_int m * 2 powi k"
  have p: "(0::rat) < 2 powi k" by simp
  have "(2::rat) powi (k + 52) = 2 ^ 52 * 2 powi k" by (simp add: power_int_add)
  with mr(1) p have lo: "2 powi (k + 52) \<le> x" by (simp add: x_def mult_right_mono)
  have "(2::rat) powi (k + 52 + 1) = 2 ^ 53 * 2 powi k" by (simp add: power_int_add)
  moreover have "(of_int m :: rat) * 2 powi k < 2 ^ 53 * 2 powi k"
  proof (rule mult_strict_right_mono)
    from mr(2) show "(of_int m :: rat) < 2 ^ 53" by linarith
    show "(0::rat) < 2 powi k" by (rule p)
  qed
  ultimately have hi: "x < 2 powi (k + 52 + 1)" by (simp add: x_def)
  from ilog2_unique [OF lo hi] have e: "ilog2 x = k + 52" .
  have q: "x / 2 powi (k + 52 - 52) = of_int m" by (simp add: x_def)
  show ?thesis unfolding x_def [symmetric] unfolding round_pos_def e q round_half_even_of_int
    by (simp add: x_def)
qed

lemma round_pos_idem:
  assumes "0 < x"
  shows "round_pos (round_pos x) = round_pos x"
proof -
  have "round_pos x = of_int (round_half_even (x / 2 powi (ilog2 x - 52))) * 2 powi (ilog2 x - 52)"
    by (simp add: round_pos_def)
  moreover from mantissa_bounds [OF assms]
  have "round_pos (of_int (round_half_even (x / 2 powi (ilog2 x - 52))) * 2 powi (ilog2 x - 52))
      = of_int (round_half_even (x / 2 powi (ilog2 x - 52))) * 2 powi (ilog2 x - 52)"
    by (rule round_pos_fixes)
  ultimately show ?thesis by simp
qed

lemma round_pos_mono:
  assumes "0 < x" and "x \<le> y"
  shows "round_pos x \<le> round_pos y"
proof (cases "ilog2 x = ilog2 y")
  case True
  have u0: "(0::rat) < 2 powi (ilog2 y - 52)" by simp
  with assms(2) have "x / 2 powi (ilog2 y - 52) \<le> y / 2 powi (ilog2 y - 52)"
    by (simp add: divide_right_mono)
  from round_half_even_mono [OF this]
  have "(of_int (round_half_even (x / 2 powi (ilog2 y - 52))) :: rat)
      \<le> of_int (round_half_even (y / 2 powi (ilog2 y - 52)))" by simp
  with u0 show ?thesis by (simp add: round_pos_def True mult_right_mono)
next
  case False
  from assms have y0: "0 < y" by simp
  from ilog2_mono [OF assms] False have "ilog2 x + 1 \<le> ilog2 y" by simp
  then have "(2::rat) powi (ilog2 x + 1) \<le> 2 powi ilog2 y" by (rule power_int_increasing) simp
  with round_pos_bounds(2) [OF assms(1)] round_pos_bounds(1) [OF y0] show ?thesis by linarith
qed

lemma round_pos_err:
  assumes "0 < x"
  shows "\<bar>round_pos x - x\<bar> \<le> x / 2 ^ 53"
proof -
  define u :: rat where "u = 2 powi (ilog2 x - 52)"
  define m where "m = round_half_even (x / u)"
  have r: "round_pos x = of_int m * u" by (simp add: round_pos_def u_def m_def)
  from ulp_facts [OF assms] have u0: "0 < u" and lo: "2 ^ 52 * u \<le> x" by (simp_all add: u_def)
  have "\<bar>of_int m - x / u\<bar> \<le> 1 / 2" unfolding m_def by (rule round_half_even_err)
  then have "\<bar>of_int m - x / u\<bar> * u \<le> 1 / 2 * u" using u0 by (simp add: mult_right_mono)
  moreover have "\<bar>of_int m - x / u\<bar> * u = \<bar>of_int m * u - x\<bar>"
  proof -
    have "\<bar>of_int m - x / u\<bar> * u = \<bar>(of_int m - x / u) * u\<bar>" using u0 by (simp add: abs_mult)
    also have "(of_int m - x / u) * u = of_int m * u - x" using u0 by (simp add: field_simps)
    finally show ?thesis .
  qed
  ultimately have "\<bar>round_pos x - x\<bar> \<le> u / 2" by (simp add: r)
  moreover from lo have "u / 2 \<le> x / 2 ^ 53" by simp
  ultimately show ?thesis by linarith
qed

subsection \<open>Rounding a number that is not negative\<close>

lemma round_double_0: "round_double 0 = 0"
  by (simp add: round_double_def)

lemma round_double_nonneg: "0 \<le> x \<Longrightarrow> 0 \<le> round_double x"
  using round_pos_pos [of x] by (auto simp: round_double_def)

lemma round_double_idem: "0 \<le> x \<Longrightarrow> round_double (round_double x) = round_double x"
  using round_pos_pos [of x] round_pos_idem [of x] by (auto simp: round_double_def)

lemma round_double_mono: "0 \<le> x \<Longrightarrow> x \<le> y \<Longrightarrow> round_double x \<le> round_double y"
  using round_pos_pos [of y] round_pos_mono [of x y] by (auto simp: round_double_def)

lemma round_double_eq_0: "0 \<le> x \<Longrightarrow> round_double x = 0 \<longleftrightarrow> x = 0"
  using round_pos_pos [of x] by (auto simp: round_double_def)

lemma round_double_err: "0 \<le> x \<Longrightarrow> \<bar>round_double x - x\<bar> \<le> x / 2 ^ 53"
  using round_pos_err [of x] by (auto simp: round_double_def)

lemma round_double_eqI:
  assumes "2 powi e \<le> x" and "x < 2 powi (e + 1)"
    and "\<bar>x / 2 powi (e - 52) - of_int m\<bar> < 1 / 2
         \<or> \<bar>x / 2 powi (e - 52) - of_int m\<bar> = 1 / 2 \<and> even m"
  shows "round_double x = of_int m * 2 powi (e - 52)"
proof -
  have "(0::rat) < 2 powi e" by simp
  with assms(1) have x0: "0 < x" by linarith
  from ilog2_unique [OF assms(1,2)] have e: "ilog2 x = e" .
  from round_half_even_eqI [OF assms(3)] show ?thesis
    using x0 by (simp add: round_double_def round_pos_def e)
qed

subsection \<open>Some doubles\<close>

lemma float_1_3: "float_1_3 = 5854679515581645 / 4503599627370496"
proof -
  have "round_double (13 / 10) = of_int 5854679515581645 * 2 powi (0 - 52)"
    by (rule round_double_eqI) simp_all
  then show ?thesis by (simp add: float_1_3_def)
qed

lemma py_float_1: "py_float 1 = 1"
proof -
  have "round_double 1 = of_int (2 ^ 52) * 2 powi (0 - 52)"
    by (rule round_double_eqI) simp_all
  then show ?thesis by (simp add: py_float_def)
qed

lemma py_float_2: "py_float 2 = 2"
proof -
  have "round_double 2 = of_int (2 ^ 52) * 2 powi (1 - 52)"
    by (rule round_double_eqI) simp_all
  then show ?thesis by (simp add: py_float_def)
qed

lemma py_float_3: "py_float 3 = 3"
proof -
  have "round_double 3 = of_int (3 * 2 ^ 51) * 2 powi (1 - 52)"
    by (rule round_double_eqI) simp_all
  then show ?thesis by (simp add: py_float_def)
qed

lemma py_float_0: "py_float 0 = 0"
  by (simp add: py_float_def round_double_0)

lemma one_word: "round_double (1 * float_1_3) = 5854679515581645 / 4503599627370496"
proof -
  have "round_double (1 * float_1_3) = of_int 5854679515581645 * 2 powi (0 - 52)"
    unfolding float_1_3 by (rule round_double_eqI) simp_all
  then show ?thesis by simp
qed

lemma two_words: "round_double (2 * float_1_3) = 5854679515581645 / 2251799813685248"
proof -
  have "round_double (2 * float_1_3) = of_int 5854679515581645 * 2 powi (1 - 52)"
    unfolding float_1_3 by (rule round_double_eqI) simp_all
  then show ?thesis by simp
qed

lemma three_words: "round_double (3 * float_1_3) = 2195504818343117 / 562949953421312"
proof -
  have "round_double (3 * float_1_3) = of_int 8782019273372468 * 2 powi (1 - 52)"
    unfolding float_1_3 by (rule round_double_eqI) simp_all
  then show ?thesis by simp
qed

lemma round_float_1_3: "round_double (5854679515581645 / 4503599627370496) = 5854679515581645 / 4503599627370496"
  using one_word by (simp add: float_1_3)

lemma round_2_6: "round_double (5854679515581645 / 2251799813685248) = 5854679515581645 / 2251799813685248"
  using two_words by (simp add: float_1_3)

lemma round_3_9: "round_double (17564038546744935 / 4503599627370496) = 2195504818343117 / 562949953421312"
  using three_words by (simp add: float_1_3)

lemma py_float_9: "py_float 9 = 9"
proof -
  have "round_double 9 = of_int (9 * 2 ^ 49) * 2 powi (3 - 52)"
    by (rule round_double_eqI) simp_all
  then show ?thesis by (simp add: py_float_def)
qed

lemma round_11_7: "round_double (52692115640234805 / 4503599627370496) = 6586514455029351 / 562949953421312"
proof -
  have "round_double (52692115640234805 / 4503599627370496) = of_int 6586514455029351 * 2 powi (3 - 52)"
    by (rule round_double_eqI) simp_all
  then show ?thesis by simp
qed

lemma round_13: "round_double (58546795155816453 / 4503599627370496) = 7318349394477057 / 562949953421312"
proof -
  have "round_double (58546795155816453 / 4503599627370496) = of_int 7318349394477057 * 2 powi (3 - 52)"
    by (rule round_double_eqI) simp_all
  then show ?thesis by simp
qed

lemmas float_eval = float_1_3 py_float_0 py_float_1 py_float_2 py_float_3 py_float_9
  round_float_1_3 round_2_6 round_3_9 round_11_7 round_13

lemmas pack_eval = batches_of_def make_batches_def valid_texts_def truncate_text_def pack_step_def
  close_batch_def pack_init_def text_token_count_def slice_to_def Let_def within_limits_def
  total_tokens_def split_ws_def isspace_def char_tokenizer_def py_gt_def

section \<open>The packing loop\<close>

subsection \<open>Order\<close>

lemma pack_step_flat:
  "concat (batches (pack_step cfg tko st text)) @ current_batch (pack_step cfg tko st text)
     = concat (batches st) @ current_batch st @ [text]"
  by (simp add: pack_step_def close_batch_def Let_def)

lemma foldl_pack_flat:
  "concat (batches (foldl (pack_step cfg tko) st vs)) @ current_batch (foldl (pack_step cfg tko) st vs)
     = concat (batches st) @ current_batch st @ vs"
proof (induction vs arbitrary: st)
  case Nil
  show ?case by simp
next
  case (Cons v vs)
  show ?case by (simp add: Cons.IH pack_step_flat)
qed

lemma close_batch_flat: "concat (batches (close_batch st)) = concat (batches st) @ current_batch st"
  by (simp add: close_batch_def)

lemma concat_make_batches: "concat (make_batches cfg tko vs) = vs"
  by (simp add: make_batches_def close_batch_flat foldl_pack_flat pack_init_def)


subsection \<open>The invariant\<close>

lemma total_tokens_snoc:
  "total_tokens tko (b @ [t]) = py_add (total_tokens tko b) (text_token_count tko t)"
  by (simp add: total_tokens_def)

lemma pack_inv_init: "pack_inv cfg tko pack_init"
  by (simp add: pack_inv_def pack_init_def total_tokens_def)

lemma pack_inv_step:
  assumes "pack_inv cfg tko st"
  shows "pack_inv cfg tko (pack_step cfg tko st text)"
proof (cases "max_batch_size cfg \<le> int (length (current_batch st))
                \<or> py_gt (py_add (current_batch_tokens st) (text_token_count tko text))
                      (max_total_tokens cfg)")
  case True
  then show ?thesis
    using assms
    by (auto simp: pack_inv_def pack_step_def close_batch_def Let_def batch_shape_def total_tokens_def)
next
  case False
  then show ?thesis
    using assms
    by (auto simp: pack_inv_def pack_step_def Let_def batch_shape_def within_limits_def
        total_tokens_snoc)
qed

lemma pack_inv_foldl: "pack_inv cfg tko st \<Longrightarrow> pack_inv cfg tko (foldl (pack_step cfg tko) st vs)"
  by (induction vs arbitrary: st) (simp_all add: pack_inv_step)

lemma make_batches_shape: "b \<in> set (make_batches cfg tko vs) \<Longrightarrow> batch_shape cfg tko b"
proof -
  assume b: "b \<in> set (make_batches cfg tko vs)"
  have "pack_inv cfg tko (foldl (pack_step cfg tko) pack_init vs)"
    by (rule pack_inv_foldl [OF pack_inv_init])
  with b show ?thesis
    by (auto simp: make_batches_def close_batch_def pack_inv_def list_all_iff split: if_splits)
qed

subsection \<open>The numbers of the loop\<close>

lemma float_1_3_nonneg: "0 \<le> float_1_3"
  by (simp add: float_1_3)

lemma py_float_nonneg: "0 \<le> n \<Longrightarrow> 0 \<le> py_float n"
  by (simp add: py_float_def round_double_nonneg)

lemma count_ok_count: "count_ok tko (text_token_count tko t)"
proof (cases tko)
  case None
  have "0 \<le> py_float (int (length (split_ws t))) * float_1_3"
    by (simp add: py_float_nonneg float_1_3_nonneg)
  then show ?thesis
    by (simp add: None count_ok_def text_token_count_def round_double_nonneg round_double_idem)
next
  case (Some tk)
  then show ?thesis by (simp add: count_ok_def text_token_count_def)
qed

lemma py_add_zero: "count_ok tko n \<Longrightarrow> py_add (PyInt 0) n = n"
  by (cases tko; cases n) (simp_all add: count_ok_def py_float_0)

lemma py_add_ok:
  assumes "sum_ok tko a" and "count_ok tko n"
  shows "count_ok tko (py_add a n)"
    and "value_of a \<le> value_of (py_add a n)"
    and "value_of n \<le> value_of (py_add a n)"
proof -
  have "count_ok tko (py_add a n) \<and> value_of a \<le> value_of (py_add a n)
      \<and> value_of n \<le> value_of (py_add a n)"
  proof (cases "a = PyInt 0")
    case True
    with assms(2) have "py_add a n = n" by (simp add: py_add_zero)
    moreover from assms(2) have "0 \<le> value_of n"
      by (cases tko; cases n) (simp_all add: count_ok_def)
    ultimately show ?thesis using assms(2) True by simp
  next
    case False
    with assms(1) have a: "count_ok tko a" by (simp add: sum_ok_def)
    show ?thesis
    proof (cases tko)
      case (Some tk)
      with a assms(2) show ?thesis by (cases a; cases n) (simp_all add: count_ok_def)
    next
      case None
      with a obtain x where x: "a = PyFloat x" "0 \<le> x" "round_double x = x"
        by (cases a) (simp_all add: count_ok_def)
      from None assms(2) obtain y where y: "n = PyFloat y" "0 \<le> y" "round_double y = y"
        by (cases n) (simp_all add: count_ok_def)
      from x(2) y(2) have s: "0 \<le> x + y" by simp
      from x(2) y(2) have "round_double x \<le> round_double (x + y)"
        by (intro round_double_mono) simp_all
      moreover from x(2) y(2) have "round_double y \<le> round_double (x + y)"
        by (intro round_double_mono) simp_all
      ultimately show ?thesis
        using s by (simp add: None x y count_ok_def round_double_nonneg round_double_idem)
    qed
  qed
  then show "count_ok tko (py_add a n)" and "value_of a \<le> value_of (py_add a n)"
    and "value_of n \<le> value_of (py_add a n)" by simp_all
qed

lemma total_tokens_ok: "sum_ok tko (total_tokens tko b)"
proof (induction b rule: rev_induct)
  case Nil
  show ?case by (simp add: total_tokens_def sum_ok_def)
next
  case (snoc t b)
  from py_add_ok(1) [OF snoc count_ok_count] show ?case
    by (simp add: total_tokens_snoc sum_ok_def)
qed

lemma member_le_total:
  "t \<in> set b \<Longrightarrow> value_of (text_token_count tko t) \<le> value_of (total_tokens tko b)"
proof (induction b rule: rev_induct)
  case Nil
  then show ?case by simp
next
  case (snoc u b)
  note add = py_add_ok [OF total_tokens_ok [of tko b] count_ok_count [of tko u]]
  show ?case
  proof (cases "t = u")
    case True
    with add(3) show ?thesis by (simp add: total_tokens_snoc)
  next
    case False
    with snoc have "value_of (text_token_count tko t) \<le> value_of (total_tokens tko b)" by simp
    with add(2) show ?thesis by (simp add: total_tokens_snoc)
  qed
qed




text \<open>
  The packing follows the rounding of the floats. With \<open>max_total_tokens = 13\<close> and no
  tokenizer, a text of one word and a text of nine words have ten words together, and
  \<open>10 * 1.3\<close> is 13; but the loop adds \<open>1.3\<close> and \<open>9 * 1.3\<close>, which gives
  \<open>13.000000000000002\<close>, so the second text opens a new batch. The estimate of a text of
  three words is \<open>3.9000000000000004\<close>.
\<close>

lemma packing_follows_rounding:
  "batches_of \<lparr>max_batch_size = 256, max_total_tokens = 13, max_sequence_length = 13\<rparr>
       (None :: char tokenizer option) [''a'', ''b c d e f g h i j'']
     = [[''a''], [''b c d e f g h i j'']]
   \<and> text_token_count (None :: char tokenizer option) ''a b c''
     = PyFloat (2195504818343117 / 562949953421312)"
  by (simp add: pack_eval float_eval py_float_9 round_11_7 round_13)


subsection \<open>Claims about the batches\<close>




text \<open>
  Claim C2. The batches of the packing loop, concatenated in order, are the sequence
  the loop was given: no item is moved, dropped, repeated or divided, and no batch is
  empty. For the whole of the batching, the concatenation is the input after the
  truncation step, item by item, so it has as many items as the input.
\<close>

theorem order_preservation:
  "concat (make_batches cfg tko vs) = vs
   \<and> [] \<notin> set (make_batches cfg tko vs)
   \<and> concat (batches_of cfg tko texts) = map (truncate_text cfg tko) texts
   \<and> length (concat (batches_of cfg tko texts)) = length texts"
proof -
  have "b \<noteq> []" if "b \<in> set (make_batches cfg tko vs)" for b
    using make_batches_shape [OF that] by (simp add: batch_shape_def)
  then have "[] \<notin> set (make_batches cfg tko vs)" by blast
  moreover have "concat (batches_of cfg tko texts) = map (truncate_text cfg tko) texts"
    by (simp add: batches_of_def concat_make_batches valid_texts_def)
  ultimately show ?thesis by (simp add: concat_make_batches)
qed

text \<open>
  Claim C10. Without a tokenizer the truncation step changes no text, so the batches
  hold the texts of the input as they are and in their order; and a text whose
  estimate exceeds \<open>max_total_tokens\<close> is alone in its batch, whose estimate then
  exceeds \<open>max_total_tokens\<close> too.
\<close>

theorem no_tokenizer_no_truncation:
  "valid_texts cfg (None :: 'tok tokenizer option) texts = texts
   \<and> concat (batches_of cfg (None :: 'tok tokenizer option) texts) = texts
   \<and> (\<forall>b \<in> set (batches_of cfg (None :: 'tok tokenizer option) texts). \<forall>t \<in> set b.
         py_gt (text_token_count (None :: 'tok tokenizer option) t) (max_total_tokens cfg)
         \<longrightarrow> b = [t] \<and> py_gt (total_tokens (None :: 'tok tokenizer option) b) (max_total_tokens cfg))"
proof (intro conjI ballI impI)
  have "truncate_text cfg (None :: 'tok tokenizer option) = (\<lambda>t. t)"
    by (simp add: truncate_text_def fun_eq_iff)
  then show v: "valid_texts cfg (None :: 'tok tokenizer option) texts = texts"
    by (simp add: valid_texts_def)
  show "concat (batches_of cfg (None :: 'tok tokenizer option) texts) = texts"
    by (simp add: batches_of_def concat_make_batches v)
next
  fix b t
  assume b: "b \<in> set (batches_of cfg (None :: 'tok tokenizer option) texts)" and t: "t \<in> set b"
    and big: "py_gt (text_token_count (None :: 'tok tokenizer option) t) (max_total_tokens cfg)"
  from b have shape: "batch_shape cfg (None :: 'tok tokenizer option) b"
    by (simp add: batches_of_def make_batches_shape)
  from t have le: "value_of (text_token_count (None :: 'tok tokenizer option) t)
      \<le> value_of (total_tokens (None :: 'tok tokenizer option) b)"
    by (rule member_le_total)
  with big show gt: "py_gt (total_tokens (None :: 'tok tokenizer option) b) (max_total_tokens cfg)"
    by (simp add: py_gt_def)
  then have "\<not> within_limits cfg (None :: 'tok tokenizer option) b"
    by (simp add: within_limits_def)
  with shape have "length b = 1" by (simp add: batch_shape_def)
  with t show "b = [t]" by (cases b) auto
qed

text \<open>
  Two texts of two words and one word, estimates 2.6 and 1.3, with
  \<open>max_sequence_length = max_total_tokens = 1\<close>: neither is cut, each is a batch.
\<close>

theorem no_tokenizer_no_truncation_witness:
  "batches_of \<lparr>max_batch_size = 10, max_total_tokens = 1, max_sequence_length = 1\<rparr>
       (None :: char tokenizer option) [''a b'', ''c''] = [[''a b''], [''c'']]
   \<and> text_token_count (None :: char tokenizer option) ''a b'' = PyFloat (5854679515581645 / 2251799813685248)
   \<and> py_gt (text_token_count (None :: char tokenizer option) ''a b'') 1
   \<and> py_gt (total_tokens (None :: char tokenizer option) [''a b'']) 1"
  using no_tokenizer_no_truncation
    [of "\<lparr>max_batch_size = 10, max_total_tokens = 1, max_sequence_length = 1\<rparr>" "[''a b'', ''c'']",
     where 'tok = char]
  by (simp add: pack_eval float_eval)

section \<open>Submitting the batches\<close>

lemma process_batches_append:
  "process_batches create (pre @ post) acc w =
     (case process_batches create pre acc w of
        (None, w') \<Rightarrow> (None, w')
      | (Some acc', w') \<Rightarrow> process_batches create post acc' w')"
  by (induction pre arbitrary: acc w) (auto split: prod.splits sum.splits option.splits)

lemma process_batches_Some:
  "process_batches create bs acc w = (Some acc', w')
     \<Longrightarrow> submitted w' = submitted w @ bs \<and> sleeps w' = sleeps w + length bs"
proof (induction bs arbitrary: acc w)
  case Nil
  then show ?case by simp
next
  case (Cons b bs)
  then show ?case by (auto split: prod.splits sum.splits)
qed

text \<open>
  Claim C3. When the batches before \<open>b\<close> have all been embedded and the provider raises
  on \<open>b\<close>, the loop returns through the handler: the list handed back is empty, the
  check of \<open>run\<close> rejects it whatever the texts were, and the batches submitted are
  those before \<open>b\<close> and \<open>b\<close> itself, none of those after it.
\<close>

theorem batch_failure_aborts:
  assumes "process_batches create pre [] w = (Some acc, w1)"
    and "fst (create (provider w1) b) = Inl e"
  shows "fst (process_batches create (pre @ b # post) [] w) = None
    \<and> returned_embeddings (fst (process_batches create (pre @ b # post) [] w)) = []
    \<and> \<not> run_accepts (returned_embeddings (fst (process_batches create (pre @ b # post) [] w))) texts
    \<and> submitted (snd (process_batches create (pre @ b # post) [] w)) = submitted w @ pre @ [b]"
proof -
  from assms(1) have sub: "submitted w1 = submitted w @ pre"
    by (simp add: process_batches_Some)
  obtain r p where c: "create (provider w1) b = (r, p)" by (cases "create (provider w1) b")
  with assms(2) have r: "r = Inl e" by simp
  have "process_batches create (pre @ b # post) [] w
      = (None, w1\<lparr>provider := p, submitted := submitted w1 @ [b]\<rparr>)"
    by (simp add: process_batches_append assms(1) c r)
  then show ?thesis
    by (simp add: returned_embeddings_def run_accepts_def sub)
qed

text \<open>
  Three batches, the provider raising on the second: the third is not submitted.
\<close>

theorem batch_failure_aborts_witness:
  "process_batches (fail_on [''b'']) [[''a''], [''b''], [''c'']] []
       \<lparr>provider = (), submitted = [], sleeps = 0\<rparr>
     = (None, \<lparr>provider = (), submitted = [[''a''], [''b'']], sleeps = 1\<rparr>)"
proof -
  have 1: "process_batches (fail_on [''b'']) [[''a'']] [] \<lparr>provider = (), submitted = [], sleeps = 0\<rparr>
      = (Some [[1]], \<lparr>provider = (), submitted = [[''a'']], sleeps = 1\<rparr>)"
    by (simp add: fail_on_def)
  have 2: "fst (fail_on [''b''] (provider \<lparr>provider = (), submitted = [[''a'']], sleeps = 1\<rparr>) [''b''])
      = Inl ProviderError"
    by (simp add: fail_on_def)
  from batch_failure_aborts [OF 1 2, of "[[''c'']]" "[]"]
  show ?thesis by (simp add: fail_on_def)
qed

text \<open>
  Claim C7 does not hold of the code: \<open>time.sleep(4)\<close> is the last statement of the
  loop body, so it runs after every batch that was embedded, the final one included.
  With the default limits, one text gives one batch, and the run sleeps once.
\<close>

theorem pacing_delay_after_final_batch:
  "batches_of \<lparr>max_batch_size = 256, max_total_tokens = 16384, max_sequence_length = 8192\<rparr>
       (Some char_tokenizer) [''a''] = [[''a'']]
   \<and> get_embeddings_batch \<lparr>max_batch_size = 256, max_total_tokens = 16384, max_sequence_length = 8192\<rparr>
       (Some char_tokenizer) embed_all [''a''] \<lparr>provider = (), submitted = [], sleeps = 0\<rparr>
     = ([[1]], \<lparr>provider = (), submitted = [[''a'']], sleeps = 1\<rparr>)"
  by (simp add: pack_eval get_embeddings_batch_def embed_all_def returned_embeddings_def)

section \<open>Truncation\<close>

text \<open>
  Claim C5. A text that encodes to exactly \<open>max_sequence_length\<close> tokens is left as it
  is by the truncation step.
\<close>

theorem truncation_idempotent:
  "int (length (encode tk text)) = max_sequence_length cfg
     \<Longrightarrow> truncate_text cfg (Some tk) text = text"
  by (simp add: truncate_text_def)

text \<open>
  With one token per character and a limit of 3: \<open>abcdef\<close> is cut to \<open>abc\<close>, which
  has 3 tokens and is not changed when the step is applied again.
\<close>

theorem truncation_idempotent_witness:
  "int (length (encode char_tokenizer ''abc'')) = 3
   \<and> truncate_text \<lparr>max_batch_size = 256, max_total_tokens = 16, max_sequence_length = 3\<rparr>
        (Some char_tokenizer) ''abcdef'' = ''abc''
   \<and> truncate_text \<lparr>max_batch_size = 256, max_total_tokens = 16, max_sequence_length = 3\<rparr>
        (Some char_tokenizer) ''abc'' = ''abc''"
  using truncation_idempotent [of char_tokenizer "''abc''"
      "\<lparr>max_batch_size = 256, max_total_tokens = 16, max_sequence_length = 3\<rparr>"]
  by (simp add: pack_eval)

section \<open>The heuristic count\<close>

lemma estimate_value:
  "text_token_count (None :: 'tok tokenizer option) text
     = PyFloat (round_double (py_float (int (length (split_ws text))) * float_1_3))"
  by (simp add: text_token_count_def)

lemma estimate_error:
  fixes w :: nat
  defines "x \<equiv> round_double (py_float (int w) * float_1_3)"
  shows "\<bar>x - of_nat w * (13 / 10)\<bar> \<le> of_nat w / 2 ^ 51"
proof -
  define W :: rat where "W = of_nat w"
  define a where "a = py_float (int w)"
  define d :: rat where "d = 5854679515581645 / 4503599627370496"
  define p where "p = a * d"
  have W0: "0 \<le> W" by (simp add: W_def)
  have a: "a = round_double W" by (simp add: a_def py_float_def W_def)
  from round_double_err [OF W0] have ea: "\<bar>a - W\<bar> \<le> W / 2 ^ 53" by (simp only: a)
  from round_double_nonneg [OF W0] have a0: "0 \<le> a" by (simp only: a)
  have p0: "0 \<le> p" using a0 by (simp add: p_def d_def)
  have x: "x = round_double p" by (simp add: x_def p_def a_def d_def float_1_3)
  from round_double_err [OF p0] have ex: "\<bar>x - p\<bar> \<le> p / 2 ^ 53" by (simp only: x)
  from ea have 1: "W - W / 2 ^ 53 \<le> a" and 2: "a \<le> W + W / 2 ^ 53" by linarith+
  from ex have 3: "p - p / 2 ^ 53 \<le> x" and 4: "x \<le> p + p / 2 ^ 53" by linarith+
  have pd: "p = a * (5854679515581645 / 4503599627370496)" by (simp only: p_def d_def)
  have e53: "(2::rat) ^ 53 = 9007199254740992" and e51: "(2::rat) ^ 51 = 2251799813685248"
    by simp_all
  have 5: "W * (13 / 10) - W / 2 ^ 51 \<le> x"
    using 1 3 W0 unfolding pd e53 e51 by linarith
  have 6: "x \<le> W * (13 / 10) + W / 2 ^ 51"
    using 2 4 W0 unfolding pd e53 e51 by linarith
  from 5 6 have "\<bar>x - W * (13 / 10)\<bar> \<le> W / 2 ^ 51" by linarith
  then show ?thesis by (simp only: W_def)
qed

lemma estimate_not_integer:
  fixes w :: nat
  defines "x \<equiv> round_double (py_float (int w) * float_1_3)"
  assumes "w < 2 ^ 47" and "\<not> 10 dvd w"
  shows "x \<notin> \<int>"
proof
  assume "x \<in> \<int>"
  then obtain z where z: "x = of_int z" by (rule Ints_cases)
  define W :: rat where "W = of_nat w"
  from estimate_error [of w] have e: "\<bar>of_int z - W * (13 / 10)\<bar> \<le> W / 2 ^ 51"
    by (simp only: x_def [symmetric] z W_def)
  from assms(2) have "(of_nat w :: rat) < of_nat (2 ^ 47)" by (simp only: of_nat_less_iff)
  then have W: "W < 2 ^ 47" by (simp add: W_def)
  have e51: "(2::rat) ^ 51 = 2251799813685248" and e47: "(2::rat) ^ 47 = 140737488355328"
    by simp_all
  from e W have "\<bar>(of_int z :: rat) * 10 - W * 13\<bar> < 1" unfolding e51 e47 by linarith
  moreover have "(of_int z :: rat) * 10 - W * 13 = of_int (z * 10 - int w * 13)"
    by (simp add: W_def)
  ultimately have "\<bar>(of_int (z * 10 - int w * 13) :: rat)\<bar> < of_int 1" by simp
  then have "\<bar>z * 10 - int w * 13\<bar> < 1" by (simp only: of_int_abs [symmetric] of_int_less_iff)
  then have "int w * 13 = z * 10" by linarith
  then have "10 dvd w" by presburger
  with assms(3) show False ..
qed

text \<open>
  Claim C6, as the code has it. Without a tokenizer the count of a text is the float
  \<open>len(text.split()) * 1.3\<close>, which is not rounded up to an integer. It is not negative,
  it is 0 exactly for a text without words (the empty text among them), and it differs
  from the product of the number of words \<open>w\<close> and 1.3 by at most \<open>w / 2 ^ 51\<close>; so for
  a text of fewer than \<open>2 ^ 47\<close> words whose number is not a multiple of 10 it is not an
  integer, hence not the ceiling of that product.
\<close>

theorem heuristic_token_count:
  "text_token_count (None :: 'tok tokenizer option) text
     = PyFloat (value_of (text_token_count (None :: 'tok tokenizer option) text))
   \<and> 0 \<le> value_of (text_token_count (None :: 'tok tokenizer option) text)
   \<and> (value_of (text_token_count (None :: 'tok tokenizer option) text) = 0 \<longleftrightarrow> split_ws text = [])
   \<and> text_token_count (None :: 'tok tokenizer option) [] = PyFloat 0
   \<and> \<bar>value_of (text_token_count (None :: 'tok tokenizer option) text)
        - of_nat (length (split_ws text)) * (13 / 10)\<bar>
       \<le> of_nat (length (split_ws text)) / 2 ^ 51
   \<and> (length (split_ws text) < 2 ^ 47 \<and> \<not> 10 dvd length (split_ws text)
        \<longrightarrow> value_of (text_token_count (None :: 'tok tokenizer option) text) \<notin> \<int>)"
proof (intro conjI impI)
  define w where "w = length (split_ws text)"
  have v: "value_of (text_token_count (None :: 'tok tokenizer option) text)
      = round_double (py_float (int w) * float_1_3)"
    by (simp add: estimate_value w_def)
  have a0: "0 \<le> py_float (int w)" by (simp add: py_float_nonneg)
  then have p0: "0 \<le> py_float (int w) * float_1_3" by (simp add: float_1_3)
  show "text_token_count (None :: 'tok tokenizer option) text
     = PyFloat (value_of (text_token_count (None :: 'tok tokenizer option) text))"
    by (simp add: estimate_value)
  show "0 \<le> value_of (text_token_count (None :: 'tok tokenizer option) text)"
    unfolding v using p0 by (rule round_double_nonneg)
  have "round_double (py_float (int w) * float_1_3) = 0 \<longleftrightarrow> py_float (int w) * float_1_3 = 0"
    using p0 by (rule round_double_eq_0)
  also have "\<dots> \<longleftrightarrow> py_float (int w) = 0" by (simp add: float_1_3)
  also have "\<dots> \<longleftrightarrow> (of_nat w :: rat) = 0"
    using round_double_eq_0 [of "of_nat w"] by (simp add: py_float_def)
  also have "\<dots> \<longleftrightarrow> split_ws text = []" by (simp add: w_def)
  finally show "value_of (text_token_count (None :: 'tok tokenizer option) text) = 0
      \<longleftrightarrow> split_ws text = []"
    by (simp only: v)
  show "text_token_count (None :: 'tok tokenizer option) [] = PyFloat 0"
    by (simp add: estimate_value split_ws_def py_float_0 round_double_0)
  show "\<bar>value_of (text_token_count (None :: 'tok tokenizer option) text)
        - of_nat (length (split_ws text)) * (13 / 10)\<bar>
       \<le> of_nat (length (split_ws text)) / 2 ^ 51"
    unfolding v w_def by (rule estimate_error)
  assume "length (split_ws text) < 2 ^ 47 \<and> \<not> 10 dvd length (split_ws text)"
  then show "value_of (text_token_count (None :: 'tok tokenizer option) text) \<notin> \<int>"
    unfolding v w_def by (intro estimate_not_integer) simp_all
qed

text \<open>
  The text \<open>a b c\<close>: three words, and the count is \<open>3.9000000000000004\<close>.
\<close>

theorem heuristic_token_count_witness:
  "length (split_ws ''a b c'') = 3
   \<and> text_token_count (None :: char tokenizer option) ''a b c''
       = PyFloat (2195504818343117 / 562949953421312)
   \<and> value_of (text_token_count (None :: char tokenizer option) ''a b c'') \<notin> \<int>"
  using heuristic_token_count [of "''a b c''", where 'tok = char]
  by (simp add: pack_eval float_eval)

text \<open>
  Claim C6 as stated fails: the count of a text of one word is the double \<open>1.3\<close>, and
  the ceiling of \<open>1 * 1.3\<close> is 2.
\<close>

theorem heuristic_token_count_counterexample:
  "text_token_count (None :: char tokenizer option) ''hello''
     = PyFloat (5854679515581645 / 4503599627370496)
   \<and> \<lceil>of_nat (length (split_ws ''hello'')) * (13 / 10 :: rat)\<rceil> = 2
   \<and> value_of (text_token_count (None :: char tokenizer option) ''hello'')
       \<noteq> of_int \<lceil>of_nat (length (split_ws ''hello'')) * (13 / 10 :: rat)\<rceil>"
proof -
  have c: "\<lceil>13 / 10 :: rat\<rceil> = 2" by (simp add: ceiling_eq_iff)
  show ?thesis by (simp add: pack_eval float_eval c)
qed


section \<open>Chunk identifiers\<close>

lemma prefix_contains: "prefix sep s \<Longrightarrow> contains sep s"
  by (cases s) auto

lemma contains_middle: "contains sep (a @ sep @ b)"
proof (induction a)
  case Nil
  show ?case by (simp add: prefix_contains)
next
  case (Cons x a)
  then show ?case by simp
qed

lemma prefix_shorter: "prefix xs (ys @ zs) \<Longrightarrow> length xs \<le> length ys \<Longrightarrow> prefix xs ys"
  by (auto simp: prefix_append)

lemma py_split_nonempty: "py_split sep piece s \<noteq> []"
  by (induction sep piece s rule: py_split.induct) auto

lemma py_split_at_sep: "sep \<noteq> [] \<Longrightarrow> py_split sep piece (sep @ rest) = piece # py_split sep [] rest"
  by (cases sep) auto

lemma py_split_first:
  assumes "sep \<noteq> []" and "\<not> contains sep (d @ butlast sep)"
  shows "py_split sep piece (d @ sep @ rest) = (piece @ d) # py_split sep [] rest"
  using assms(2)
proof (induction d arbitrary: piece)
  case Nil
  show ?case using assms(1) by (simp add: py_split_at_sep)
next
  case (Cons x d)
  from Cons.prems have np: "\<not> prefix sep (x # d @ butlast sep)"
    and nc: "\<not> contains sep (d @ butlast sep)" by simp_all
  have "\<not> prefix sep (x # d @ sep @ rest)"
  proof
    assume p: "prefix sep (x # d @ sep @ rest)"
    have "x # d @ sep @ rest = (x # d @ butlast sep) @ ([last sep] @ rest)"
      using assms(1) by simp
    with p have "prefix sep ((x # d @ butlast sep) @ ([last sep] @ rest))" by simp
    moreover have "length sep \<le> length (x # d @ butlast sep)" by simp
    ultimately have "prefix sep (x # d @ butlast sep)" by (rule prefix_shorter)
    with np show False ..
  qed
  then show ?case using Cons.IH [OF nc] by simp
qed

lemma butlast_marker: "butlast chunk_marker = ''_<chunk>''"
  by (simp add: chunk_marker_def)


text \<open>
  Where the marker does not occur in the document identifier followed by the first eight
  characters of the marker, the part before the first marker of a chunk identifier is the
  document identifier.
\<close>

lemma original_file_chunk_id:
  assumes "\<not> contains chunk_marker (d @ ''_<chunk>'')"
  shows "original_file (chunk_id d i) = d"
proof -
  have ne: "chunk_marker \<noteq> []" by (simp add: chunk_marker_def)
  have "original_file (chunk_id d i) = hd (py_split chunk_marker [] (d @ chunk_marker @ str_nat i))"
    by (simp add: original_file_def chunk_id_def contains_middle)
  with py_split_first [OF ne, of d "[]" "str_nat i"] assms show ?thesis
    by (simp add: butlast_marker)
qed

text \<open>
  Claim C4 does not hold of the code. Lines 103-107 of the embedding stage are to extract
  the original file path from the chunk identifier, and take the part before the first
  occurrence of the marker. For the file \<open>a_<chunk>_b.py\<close> the identifier of chunk 0 is
  \<open>a_<chunk>_b.py_<chunk>_0\<close>, and the stage recovers \<open>a\<close>, not the document identifier.
\<close>

theorem chunk_id_roundtrip_fails:
  "chunk_id ''a_<chunk>_b.py'' 0 = ''a_<chunk>_b.py_<chunk>_0''
   \<and> original_file (chunk_id ''a_<chunk>_b.py'' 0) = ''a''
   \<and> original_file (chunk_id ''a_<chunk>_b.py'' 0) \<noteq> ''a_<chunk>_b.py''"
  by (simp add: chunk_id_def chunk_marker_def original_file_def str_nat.simps digit_char_def)

section \<open>The chunker\<close>

lemma chunk_id_neq: "chunk_id d i \<noteq> d"
proof
  assume "chunk_id d i = d"
  then have "length (chunk_id d i) = length d" by simp
  then show False by (simp add: chunk_id_def chunk_marker_def)
qed

text \<open>
  Claim C9, as the code has it. A document whose stripped text is not empty and for
  which the splitter returns no chunk is stored whole under its own identifier: the
  entry is the document as it was given, its key carries neither the marker nor an
  index, and there is no entry for chunk 0 of the document. The embedding stage takes an
  identifier without the marker as the file itself.
\<close>

theorem empty_split_emits_document:
  assumes "strip (dict_get doc ''text'' []) \<noteq> []"
    and "split_text (strip (dict_get doc ''title'' [])) (strip (dict_get doc ''text'' [])) = []"
  shows "chunk_doc split_text new_corpus (orig_id, doc) = AList.update orig_id doc new_corpus
    \<and> map_of (chunk_doc split_text new_corpus (orig_id, doc)) orig_id = Some doc
    \<and> chunk_corpus split_text [(orig_id, doc)] = [(orig_id, doc)]
    \<and> map_of (chunk_corpus split_text [(orig_id, doc)]) (chunk_id orig_id 0) = None
    \<and> (\<not> contains chunk_marker orig_id \<longrightarrow> original_file orig_id = orig_id)"
proof -
  have 1: "chunk_doc split_text nc (orig_id, doc) = AList.update orig_id doc nc" for nc
    using assms by (simp add: chunk_doc_def Let_def)
  have 2: "chunk_id orig_id 0 \<noteq> orig_id" by (rule chunk_id_neq)
  show ?thesis
    using 2 by (simp add: 1 chunk_corpus_def update_conv' original_file_def)
qed

text \<open>
  The document \<open>a.py\<close> with a text that is not empty, and a splitter that returns
  nothing.
\<close>

theorem empty_split_emits_document_witness:
  "strip (dict_get [(''title'', ''a.py''), (''text'', '' x = 1 '')] ''text'' []) = ''x = 1''
   \<and> chunk_corpus no_chunks [(''a.py'', [(''title'', ''a.py''), (''text'', '' x = 1 '')])]
       = [(''a.py'', [(''title'', ''a.py''), (''text'', '' x = 1 '')])]
   \<and> original_file ''a.py'' = ''a.py''"
proof -
  have s: "strip (dict_get [(''title'', ''a.py''), (''text'', '' x = 1 '')] ''text'' []) = ''x = 1''"
    by (simp add: strip_def dict_get_def isspace_def)
  have n: "\<not> contains chunk_marker ''a.py''" by (simp add: chunk_marker_def)
  from empty_split_emits_document
    [of "[(''title'', ''a.py''), (''text'', '' x = 1 '')]" no_chunks "[]" "''a.py''"] s n
  show ?thesis by (simp add: no_chunks_def)
qed

text \<open>
  Claim C9 as stated fails: the entry stored for \<open>a.py\<close> has the key \<open>a.py\<close>, and
  the corpus has no entry under the identifier of chunk 0, \<open>a.py_<chunk>_0\<close>.
\<close>

theorem empty_split_counterexample:
  "chunk_corpus no_chunks [(''a.py'', [(''title'', ''a.py''), (''text'', ''x = 1'')])]
       = [(''a.py'', [(''title'', ''a.py''), (''text'', ''x = 1'')])]
   \<and> chunk_id ''a.py'' 0 = ''a.py_<chunk>_0''
   \<and> map_of (chunk_corpus no_chunks [(''a.py'', [(''title'', ''a.py''), (''text'', ''x = 1'')])])
        (chunk_id ''a.py'' 0) = None"
  by (simp add: chunk_corpus_def chunk_doc_def no_chunks_def strip_def dict_get_def isspace_def
      Let_def chunk_id_def chunk_marker_def str_nat.simps digit_char_def)

section \<open>The pipeline\<close>

lemma process_tags_append:
  "process_tags e (pre @ post) s =
     (case process_tags e pre s of
        (False, s1) \<Rightarrow> (False, s1)
      | (True, s1) \<Rightarrow> process_tags e post s1)"
  by (induction pre arbitrary: s) (auto split: prod.splits bool.splits)

lemma download_repo_fails:
  "fetch e tag \<noteq> Fetched \<Longrightarrow>
     fst (download_repo e tag s) = False
     \<and> events (snd (download_repo e tag s)) = events s @ [Download tag]
     \<and> RawDir tag \<notin> dirs (snd (download_repo e tag s))
     \<and> dirs (snd (download_repo e tag s)) - {RepoDir tag, RawDir tag} = dirs s - {RepoDir tag, RawDir tag}"
  by (cases "fetch e tag") (auto simp: download_repo_def Let_def)

text \<open>
  Claim C8, as the code has it. When the tags before \<open>tag\<close> have been processed to
  the end, the directory of \<open>tag\<close> does not exist and fetching its archive fails, then
  the loop is left by \<open>return\<close>: the last call is the download of \<open>tag\<close>, the
  target directory does not exist afterwards, and the tags after \<open>tag\<close> make no
  difference to the run, none of them being processed.
\<close>

theorem fetch_failure_stops_pipeline:
  assumes "process_tags e pre s = (True, s1)"
    and "RepoDir tag \<notin> dirs s1"
    and "fetch e tag \<noteq> Fetched"
  shows "fst (process_tags e (pre @ tag # post) s) = False
    \<and> events (snd (process_tags e (pre @ tag # post) s)) = events s1 @ [Download tag]
    \<and> RawDir tag \<notin> dirs (snd (process_tags e (pre @ tag # post) s))
    \<and> process_tags e (pre @ tag # post) s = process_tags e (pre @ [tag]) s"
proof -
  obtain ok s2 where d: "download_repo e tag s1 = (ok, s2)" by (cases "download_repo e tag s1")
  with download_repo_fails [OF assms(3), of s1]
  have ok: "ok = False" and ev: "events s2 = events s1 @ [Download tag]" and raw: "RawDir tag \<notin> dirs s2"
    by simp_all
  have "process_tags e (pre @ tag # rest) s = (False, s2)" for rest
    using assms(1,2) d ok by (simp add: process_tags_append)
  then show ?thesis using ev raw by simp
qed

text \<open>
  The tags \<open>v2\<close>, \<open>v1\<close>, \<open>v3\<close>, the archive of \<open>v1\<close> failing: \<open>v2\<close> is processed,
  the download of \<open>v1\<close> is tried, and nothing is done for \<open>v3\<close>.
\<close>

theorem fetch_failure_stops_pipeline_witness:
  "process_tags example_env [''v2'', ''v1'', ''v3''] \<lparr>dirs = {}, events = []\<rparr>
     = (False, \<lparr>dirs = {RepoDir ''v2'', RawDir ''v2'', RepoDir ''v1''},
          events = [Download ''v2'', Preprocess ''v2'', Embed ''v2'', Index ''v2'', Download ''v1'']\<rparr>)"
proof -
  have 1: "process_tags example_env [''v2''] \<lparr>dirs = {}, events = []\<rparr>
     = (True, \<lparr>dirs = {RepoDir ''v2'', RawDir ''v2''},
          events = [Download ''v2'', Preprocess ''v2'', Embed ''v2'', Index ''v2'']\<rparr>)"
    by (auto simp: example_env_def download_repo_def run_stages_def Let_def)
  have 2: "RepoDir ''v1'' \<notin> dirs \<lparr>dirs = {RepoDir ''v2'', RawDir ''v2''},
          events = [Download ''v2'', Preprocess ''v2'', Embed ''v2'', Index ''v2'']\<rparr>"
    by simp
  have 3: "fetch example_env ''v1'' \<noteq> Fetched" by (simp add: example_env_def)
  from fetch_failure_stops_pipeline [OF 1 2 3, of "[''v3'']"]
  show ?thesis
    by (auto simp: example_env_def download_repo_def run_stages_def Let_def)
qed


text \<open>
  Claim C8 as stated fails: with the tags \<open>v1\<close> and \<open>v2\<close>, the archive of \<open>v1\<close>
  failing, the run ends after the download of \<open>v1\<close> and does nothing for \<open>v2\<close>,
  which on its own would have gone through all stages.
\<close>

theorem fetch_failure_counterexample:
  "run_pipeline example_env [''v1'', ''v2''] \<lparr>dirs = {}, events = []\<rparr>
     = Returned (False, \<lparr>dirs = {RepoDir ''v1''}, events = [Download ''v1'']\<rparr>)
   \<and> process_tags example_env [''v2''] \<lparr>dirs = {}, events = []\<rparr>
     = (True, \<lparr>dirs = {RepoDir ''v2'', RawDir ''v2''},
          events = [Download ''v2'', Preprocess ''v2'', Embed ''v2'', Index ''v2'']\<rparr>)"
  by (auto simp: run_pipeline_def example_env_def download_repo_def run_stages_def Let_def)

end

